theory Spec2Isabelle
  imports Main "HOL-Library.Word"
begin

section \<open>Strings: the library operations the parser calls\<close>

text \<open>
  A Go string is a sequence of bytes, here a \<open>char list\<close>. The parser uses
  \<open>strings.Split\<close>, \<open>strings.TrimSpace\<close>, \<open>strings.HasSuffix\<close> and
  \<open>strings.TrimSuffix\<close>; they are transcribed below at the byte level.
\<close>

text \<open>
  \<open>strings.Split(s, sep)\<close> for a one-byte separator: cut at every occurrence of the
  separator, the rest of the string after the last one being the last piece.
\<close>

function Split :: "string \<Rightarrow> char \<Rightarrow> string list" where
  "Split s sep =
     (case dropWhile (\<lambda>c. c \<noteq> sep) s of
        [] \<Rightarrow> [s]
      | _ # rest \<Rightarrow> takeWhile (\<lambda>c. c \<noteq> sep) s # Split rest sep)"
  by pat_completeness auto
termination
proof (relation "measure (\<lambda>(s, sep). length s)")
  show "wf (measure (\<lambda>(s, sep). length s))" by simp
next
  fix s :: string and sep x rest
  assume "dropWhile (\<lambda>c. c \<noteq> sep) s = x # rest"
  then have "length (x # rest) \<le> length s"
    using length_dropWhile_le [of "\<lambda>c. c \<noteq> sep" s] by simp
  then show "((rest, sep), (s, sep)) \<in> measure (\<lambda>(s, sep). length s)" by simp
qed

declare Split.simps [simp del]

text \<open>
  \<open>strings.TrimSpace\<close> removes leading and trailing white space as Unicode defines it.
  The ASCII white space is tab, line feed, vertical tab, form feed, carriage return and
  space; beyond ASCII the white-space code points are U+0085, U+00A0, U+1680,
  U+2000 to U+200A, U+2028, U+2029, U+202F, U+205F and U+3000, which a string holds in
  their UTF-8 encoding. \<open>space_width s\<close> is the number of bytes of the white-space
  character that \<open>s\<close> starts with, 0 when it starts with none; \<open>space_width_last\<close>
  is the same for the character a string ends with, read on the reversed string.
\<close>

definition asciiSpace :: "char \<Rightarrow> bool" where
  "asciiSpace c \<longleftrightarrow>
     c = CHR 0x09 \<or> c = CHR 0x0A \<or> c = CHR 0x0B \<or> c = CHR 0x0C \<or> c = CHR 0x0D \<or> c = CHR 0x20"

definition e2_80_space :: "char \<Rightarrow> bool" where
  "e2_80_space c \<longleftrightarrow>
     (0x80 \<le> (of_char c :: nat) \<and> (of_char c :: nat) \<le> 0x8A)
     \<or> c = CHR 0xA8 \<or> c = CHR 0xA9 \<or> c = CHR 0xAF"

fun space_width :: "string \<Rightarrow> nat" where
  "space_width [] = 0"
| "space_width [a] = (if asciiSpace a then 1 else 0)"
| "space_width [a, b] =
     (if asciiSpace a then 1
      else if a = CHR 0xC2 \<and> (b = CHR 0x85 \<or> b = CHR 0xA0) then 2
      else 0)"
| "space_width (a # b # c # rest) =
     (if asciiSpace a then 1
      else if a = CHR 0xC2 \<and> (b = CHR 0x85 \<or> b = CHR 0xA0) then 2
      else if a = CHR 0xE1 \<and> b = CHR 0x9A \<and> c = CHR 0x80 then 3
      else if a = CHR 0xE2 \<and> b = CHR 0x80 \<and> e2_80_space c then 3
      else if a = CHR 0xE2 \<and> b = CHR 0x81 \<and> c = CHR 0x9F then 3
      else if a = CHR 0xE3 \<and> b = CHR 0x80 \<and> c = CHR 0x80 then 3
      else 0)"

fun space_width_last :: "string \<Rightarrow> nat" where
  "space_width_last [] = 0"
| "space_width_last [a] = (if asciiSpace a then 1 else 0)"
| "space_width_last [b, a] =
     (if asciiSpace b then 1
      else if a = CHR 0xC2 \<and> (b = CHR 0x85 \<or> b = CHR 0xA0) then 2
      else 0)"
| "space_width_last (c # b # a # rest) =
     (if asciiSpace c then 1
      else if b = CHR 0xC2 \<and> (c = CHR 0x85 \<or> c = CHR 0xA0) then 2
      else if a = CHR 0xE1 \<and> b = CHR 0x9A \<and> c = CHR 0x80 then 3
      else if a = CHR 0xE2 \<and> b = CHR 0x80 \<and> e2_80_space c then 3
      else if a = CHR 0xE2 \<and> b = CHR 0x81 \<and> c = CHR 0x9F then 3
      else if a = CHR 0xE3 \<and> b = CHR 0x80 \<and> c = CHR 0x80 then 3
      else 0)"

function TrimLeft :: "string \<Rightarrow> string" where
  "TrimLeft s = (if space_width s = 0 then s else TrimLeft (drop (space_width s) s))"
  by pat_completeness auto
termination
proof (relation "measure length")
  show "wf (measure length)" by simp
next
  fix s :: string
  assume "space_width s \<noteq> 0"
  moreover have "space_width s \<le> length s"
    by (induction s rule: space_width.induct) auto
  ultimately show "(drop (space_width s) s, s) \<in> measure length" by simp
qed

declare TrimLeft.simps [simp del]

function TrimRightRev :: "string \<Rightarrow> string" where
  "TrimRightRev r =
     (if space_width_last r = 0 then r else TrimRightRev (drop (space_width_last r) r))"
  by pat_completeness auto
termination
proof (relation "measure length")
  show "wf (measure length)" by simp
next
  fix r :: string
  assume "space_width_last r \<noteq> 0"
  moreover have "space_width_last r \<le> length r"
    by (induction r rule: space_width_last.induct) auto
  ultimately show "(drop (space_width_last r) r, r) \<in> measure length" by simp
qed

declare TrimRightRev.simps [simp del]

definition TrimRight :: "string \<Rightarrow> string" where
  "TrimRight s = rev (TrimRightRev (rev s))"

definition TrimSpace :: "string \<Rightarrow> string" where
  "TrimSpace s = TrimRight (TrimLeft s)"

definition HasSuffix :: "string \<Rightarrow> string \<Rightarrow> bool" where
  "HasSuffix s suffix \<longleftrightarrow>
     length suffix \<le> length s \<and> drop (length s - length suffix) s = suffix"

definition TrimSuffix :: "string \<Rightarrow> string \<Rightarrow> string" where
  "TrimSuffix s suffix =
     (if HasSuffix s suffix then take (length s - length suffix) s else s)"

section \<open>Integers: \<open>big.Int.SetString\<close> with base 0 and \<open>%d\<close>\<close>

text \<open>
  \<open>new(big.Int).SetString(s, 0)\<close> scans an optional sign and then a natural number
  whose base the prefix selects (math/big, \<open>nat.scan\<close> with base 0 and no
  fraction, as of Go 1.13): \<open>0b\<close> or \<open>0B\<close> base 2, \<open>0o\<close>, \<open>0O\<close> or a
  plain \<open>0\<close> base 8, \<open>0x\<close> or \<open>0X\<close> base 16, otherwise base 10; an underscore may
  stand between the prefix and a digit and between two digits. The whole string has to
  be consumed. The scanner keeps the kind of the previous character in \<open>prev\<close>
  (\<open>0\<close> for a digit, \<open>_\<close> for a separator, \<open>.\<close> for anything else), whether a
  misplaced separator was seen, the number of digits and the value so far.
\<close>

record scanner =
  sc_prev :: char
  sc_invalSep :: bool
  sc_count :: nat
  sc_z :: nat

text \<open>The digit value of a character; 63 (\<open>MaxBase + 1\<close>) for a character that is no digit.\<close>

definition digit_value :: "char \<Rightarrow> nat" where
  "digit_value ch =
     (let n = (of_char ch :: nat) in
      if 48 \<le> n \<and> n \<le> 57 then n - 48
      else if 97 \<le> n \<and> n \<le> 122 then n - 97 + 10
      else if 65 \<le> n \<and> n \<le> 90 then n - 65 + 10
      else 63)"

text \<open>
  The scanning loop: it returns the scanner's state and the bytes it has not consumed
  (a character that is no digit of the base is unread and ends the loop).
\<close>

fun scan_loop :: "nat \<Rightarrow> string \<Rightarrow> scanner \<Rightarrow> scanner \<times> string" where
  "scan_loop b [] st = (st, [])"
| "scan_loop b (ch # r) st =
     (if ch = CHR ''_'' then
        scan_loop b r (st\<lparr>sc_invalSep := sc_invalSep st \<or> sc_prev st \<noteq> CHR ''0'',
                           sc_prev := CHR ''_''\<rparr>)
      else if digit_value ch \<ge> b then (st, ch # r)
      else scan_loop b r (st\<lparr>sc_prev := CHR ''0'', sc_count := sc_count st + 1,
                              sc_z := sc_z st * b + digit_value ch\<rparr>))"

datatype scan_error = errNoDigits | errInvalSep

text \<open>
  What follows the loop: a misplaced or trailing separator is an error; no digit at all
  is an error unless the only prefix was the octal \<open>0\<close>, which then reads as zero
  (keeping a separator error).
\<close>

definition scan_finish :: "char \<Rightarrow> scanner \<times> string \<Rightarrow> (scan_error + nat) \<times> string" where
  "scan_finish prefix res =
     (let (st, unread) = res;
          sep_err = sc_invalSep st \<or> sc_prev st = CHR ''_''
      in if sc_count st = 0 then
           (if prefix = CHR ''0'' then ((if sep_err then Inl errInvalSep else Inr 0), unread)
            else (Inl errNoDigits, unread))
         else ((if sep_err then Inl errInvalSep else Inr (sc_z st)), unread))"

definition nat_scan :: "string \<Rightarrow> (scan_error + nat) \<times> string" where
  "nat_scan s =
     (case s of
        [] \<Rightarrow> (Inl errNoDigits, [])
      | ch # r \<Rightarrow>
          if ch = CHR ''0'' then
            (case r of
               [] \<Rightarrow> (Inr 0, [])
             | ch' # r' \<Rightarrow>
                 let start = \<lparr>sc_prev = CHR ''0'', sc_invalSep = False, sc_count = 0, sc_z = 0\<rparr>
                 in if ch' = CHR ''b'' \<or> ch' = CHR ''B'' then
                      scan_finish (CHR ''b'') (scan_loop 2 r' start)
                    else if ch' = CHR ''o'' \<or> ch' = CHR ''O'' then
                      scan_finish (CHR ''o'') (scan_loop 8 r' start)
                    else if ch' = CHR ''x'' \<or> ch' = CHR ''X'' then
                      scan_finish (CHR ''x'') (scan_loop 16 r' start)
                    else scan_finish (CHR ''0'') (scan_loop 8 r start))
          else
            scan_finish (CHR 0x00)
              (scan_loop 10 s \<lparr>sc_prev = CHR ''.'', sc_invalSep = False, sc_count = 0, sc_z = 0\<rparr>))"

text \<open>
  \<open>SetString\<close>: the sign (\<open>scanSign\<close> fails on the empty string), the number, and
  the check that nothing is left unread. Zero has no sign.
\<close>

definition SetString :: "string \<Rightarrow> int option" where
  "SetString s =
     (case s of
        [] \<Rightarrow> None
      | ch # r \<Rightarrow>
          let neg = (ch = CHR ''-'');
              body = (if ch = CHR ''-'' \<or> ch = CHR ''+'' then r else s)
          in (case nat_scan body of
                (Inl err, unread) \<Rightarrow> None
              | (Inr n, unread) \<Rightarrow>
                  if unread \<noteq> [] then None
                  else Some (if neg then - int n else int n)))"

text \<open>\<open>x.Uint64()\<close> is the low 64 bits of the magnitude of \<open>x\<close>.\<close>

definition Uint64 :: "int \<Rightarrow> 64 word" where
  "Uint64 x = word_of_int \<bar>x\<bar>"

text \<open>The verb \<open>%d\<close> of \<open>fmt.Sprintf\<close> on an unsigned integer: its decimal digits.\<close>

fun fmt_d :: "nat \<Rightarrow> string" where
  "fmt_d n = (if n < 10 then [char_of (48 + n)] else fmt_d (n div 10) @ [char_of (48 + n mod 10)])"

declare fmt_d.simps [simp del]

section \<open>Derivation paths\<close>

text \<open>
  A derivation path is a slice of 32-bit indices. The errors of the parser are the
  messages of the source, named as the specification names them:
  ``empty derivation path'' is \<open>EmptyPath\<close>, ``ambiguous path: ...'' is
  \<open>AmbiguousPath\<close>, ``base path must be provided for relative path'' is
  \<open>MissingBasePath\<close>, ``invalid component: text'' is \<open>InvalidComponent text\<close>,
  and ``component v out of allowed range [0, max]'' or ``... out of allowed hardened
  range [0, max]'' is \<open>ComponentOutOfRange v max hardened\<close>.
\<close>

type_synonym DerivationPath = "32 word list"

datatype error =
    EmptyPath
  | AmbiguousPath
  | MissingBasePath
  | InvalidComponent string
  | ComponentOutOfRange int "32 word" bool

text \<open>
  The body of the loop over the components. First the component is trimmed and a
  hardened suffix taken off: \<open>strip_hardened\<close> returns the offset \<open>value\<close> and the
  text left in \<open>component\<close>. Then the number is read, checked against the ceiling
  \<open>math.MaxUint32 - value\<close> and added to the offset.
\<close>

definition strip_hardened :: "string \<Rightarrow> 32 word \<times> string" where
  "strip_hardened component0 =
     (let component = TrimSpace component0 in
      if HasSuffix component [CHR 0x27]
      then (0x80000000, TrimSpace (TrimSuffix component [CHR 0x27]))
      else (0, component))"

definition component_index :: "string \<Rightarrow> error + 32 word" where
  "component_index component0 =
     (case strip_hardened component0 of (val, component) \<Rightarrow>
        (case SetString component of
           None \<Rightarrow> Inl (InvalidComponent component)
         | Some bigval \<Rightarrow>
             let max_val = (0xFFFFFFFF :: 32 word) - val
             in if bigval < 0 \<or> bigval > uint max_val then
                  Inl (ComponentOutOfRange bigval max_val (val \<noteq> 0))
                else Inr (val + ucast (Uint64 bigval))))"

fun parse_components :: "string list \<Rightarrow> DerivationPath \<Rightarrow> error + DerivationPath" where
  "parse_components [] result = Inr result"
| "parse_components (component # rest) result =
     (case component_index component of
        Inl err \<Rightarrow> Inl err
      | Inr val \<Rightarrow> parse_components rest (result @ [val]))"

text \<open>
  The variadic \<open>base\<close> is the list of the paths passed; only the first is used.
  \<open>parse_relative\<close> is the part of the function after the switch: the check that
  a component is left, and the loop.
\<close>

definition parse_relative :: "string list \<Rightarrow> DerivationPath \<Rightarrow> error + DerivationPath" where
  "parse_relative components result =
     (if length components = 0 then Inl EmptyPath
      else parse_components components result)"

definition ParseDerivationPath :: "string \<Rightarrow> DerivationPath list \<Rightarrow> error + DerivationPath" where
  "ParseDerivationPath path base =
     (let components = Split path (CHR ''/'') in
      if length components = 0 then Inl EmptyPath
      else if TrimSpace (components ! 0) = [] then Inl AmbiguousPath
      else if TrimSpace (components ! 0) = ''m'' then parse_relative (drop 1 components) []
      else (case base of
              [] \<Rightarrow> Inl MissingBasePath
            | b # _ \<Rightarrow> parse_relative components ([] @ b)))"

text \<open>
  In Go the function returns a pair of a path and an error, the path being \<open>nil\<close>
  whenever there is an error; \<open>returned_path\<close> is that first component.
\<close>

definition returned_path :: "error + DerivationPath \<Rightarrow> DerivationPath" where
  "returned_path r = (case r of Inl err \<Rightarrow> [] | Inr p \<Rightarrow> p)"

text \<open>The canonical form: \<open>m\<close>, then each index in decimal, a hardened one with an apostrophe.\<close>

fun String_loop :: "string \<Rightarrow> DerivationPath \<Rightarrow> string" where
  "String_loop result [] = result"
| "String_loop result (component # rest) =
     (let hardened = (component \<ge> 0x80000000);
          component' = (if hardened then component - 0x80000000 else component);
          result' = result @ ''/'' @ fmt_d (unat component');
          result'' = (if hardened then result' @ [CHR 0x27] else result')
      in String_loop result'' rest)"

definition String :: "DerivationPath \<Rightarrow> string" where
  "String path = String_loop ''m'' path"

section \<open>JSON\<close>

text \<open>
  A path is marshalled as the JSON string of its canonical form and unmarshalled by
  parsing that string with no base path. The JSON document is modelled by its value:
  a string, \<open>null\<close>, any other well-formed value, or bytes that are not JSON.
  \<open>json.Marshal\<close> does not fail on a string, and the value it writes is the string
  itself when the string is valid UTF-8, as the canonical form, which is ASCII, is;
  \<open>json.Unmarshal\<close> into a string variable stores a JSON string, leaves the variable
  as it is on \<open>null\<close>, and fails on anything else.
\<close>

datatype json = JSON_String string | JSON_Null | JSON_Other | JSON_Malformed

datatype json_error = SyntaxError | UnmarshalTypeError

definition json_Marshal :: "string \<Rightarrow> json_error + json" where
  "json_Marshal s = Inr (JSON_String s)"

definition json_Unmarshal :: "json \<Rightarrow> string \<Rightarrow> json_error + string" where
  "json_Unmarshal b dp =
     (case b of
        JSON_String s \<Rightarrow> Inr s
      | JSON_Null \<Rightarrow> Inr dp
      | JSON_Other \<Rightarrow> Inl UnmarshalTypeError
      | JSON_Malformed \<Rightarrow> Inl SyntaxError)"

definition MarshalJSON :: "DerivationPath \<Rightarrow> json_error + json" where
  "MarshalJSON path = json_Marshal (String path)"

text \<open>
  \<open>UnmarshalJSON\<close> writes through its receiver: the model takes the path stored
  there and returns the path stored afterwards, with the error returned, if any.
  A JSON error leaves the receiver alone; after it, the receiver gets whatever path
  \<open>ParseDerivationPath\<close> returns, \<open>nil\<close> with an error.
\<close>

datatype unmarshal_error = JSONError json_error | PathError error

definition UnmarshalJSON :: "json \<Rightarrow> DerivationPath \<Rightarrow> DerivationPath \<times> unmarshal_error option" where
  "UnmarshalJSON b path =
     (case json_Unmarshal b [] of
        Inl err \<Rightarrow> (path, Some (JSONError err))
      | Inr dp \<Rightarrow>
          (case ParseDerivationPath dp [] of
             Inl err \<Rightarrow> (returned_path (Inl err), Some (PathError err))
           | Inr p \<Rightarrow> (returned_path (Inr p), None)))"

section \<open>Key derivation\<close>

text \<open>
  An \<open>ExtendedKey\<close> wraps the key of the key-derivation library, and \<open>Child\<close>
  wraps the library's single derivation step. The library is a parameter: a step takes
  a key, an index and the library's state (whatever the step may read or change) and
  returns an error or the child key, and the new state. Keys are handles that are
  not \<open>nil\<close>.
\<close>

datatype 'h ExtendedKey = ExtendedKey 'h

type_synonym ('h, 'e, 's) child_step = "'h \<Rightarrow> 32 word \<Rightarrow> 's \<Rightarrow> ('e + 'h) \<times> 's"

definition Child ::
  "('h, 'e, 's) child_step \<Rightarrow> 'h ExtendedKey \<Rightarrow> 32 word \<Rightarrow> 's \<Rightarrow> ('e + 'h ExtendedKey) \<times> 's" where
  "Child hdkeychain_Child k i s =
     (case k of ExtendedKey inner \<Rightarrow>
        (case hdkeychain_Child inner i s of
           (Inl err, s') \<Rightarrow> (Inl err, s')
         | (Inr key, s') \<Rightarrow> (Inr (ExtendedKey key), s')))"

fun DeriveKey ::
  "('h, 'e, 's) child_step \<Rightarrow> 'h ExtendedKey \<Rightarrow> DerivationPath \<Rightarrow> 's \<Rightarrow> ('e + 'h ExtendedKey) \<times> 's" where
  "DeriveKey hdkeychain_Child key [] s = (Inr key, s)"
| "DeriveKey hdkeychain_Child key (val # rest) s =
     (case Child hdkeychain_Child key val s of
        (Inl err, s') \<Rightarrow> (Inl err, s')
      | (Inr key', s') \<Rightarrow> DeriveKey hdkeychain_Child key' rest s')"

text \<open>
  A library whose step is a function of the key and the index and which counts the
  steps it is asked for, as a test double does.
\<close>

definition counting :: "('h \<Rightarrow> 32 word \<Rightarrow> 'e + 'h) \<Rightarrow> ('h, 'e, nat) child_step" where
  "counting f = (\<lambda>h i n. (f h i, Suc n))"

section \<open>Notions used in the proofs\<close>

text \<open>
  Decimal digits, bytes that are neither white space nor part of a multi-byte character,
  the text that \<open>String\<close> writes for one index, and the quantities the number
  scanner computes: which characters it consumes in a base, the digits among them,
  their value, and whether the separators among them are an error.
\<close>

definition dec_digit :: "char \<Rightarrow> bool" where
  "dec_digit c \<longleftrightarrow> 48 \<le> (of_char c :: nat) \<and> (of_char c :: nat) \<le> 57"

fun sep_error :: "char \<Rightarrow> string \<Rightarrow> bool" where
  "sep_error p [] = (p = CHR ''_'')"
| "sep_error p (c # r) =
     (if c = CHR ''_'' then p \<noteq> CHR ''0'' \<or> sep_error (CHR ''_'') r else sep_error (CHR ''0'') r)"

definition digits_of :: "string \<Rightarrow> string" where
  "digits_of t = filter (\<lambda>c. c \<noteq> CHR ''_'') t"

definition number_value :: "nat \<Rightarrow> nat \<Rightarrow> string \<Rightarrow> nat" where
  "number_value b acc ds = foldl (\<lambda>a c. a * b + digit_value c) acc ds"

definition scannable :: "nat \<Rightarrow> char \<Rightarrow> bool" where
  "scannable b c \<longleftrightarrow> c = CHR ''_'' \<or> digit_value c < b"

definition plain :: "char \<Rightarrow> bool" where
  "plain c \<longleftrightarrow> \<not> asciiSpace c \<and> (of_char c :: nat) < 128"

definition index_text :: "32 word \<Rightarrow> string" where
  "index_text component =
     (if component \<ge> 0x80000000 then fmt_d (unat (component - 0x80000000)) @ [CHR 0x27]
      else fmt_d (unat component))"

text \<open>
  The components the loop of \<open>ParseDerivationPath\<close> runs over: those of the split,
  without the leading \<open>m\<close> of an absolute path.
\<close>

definition path_components :: "string \<Rightarrow> string list" where
  "path_components path =
     (let components = Split path (CHR ''/'') in
      if TrimSpace (components ! 0) = ''m'' then drop 1 components else components)"

text \<open>
  One step of a left fold that fails fast: once the accumulated result is an error
  it is passed on, and \<open>Child\<close> is not called.
\<close>

definition fold_step ::
  "('h, 'e, 's) child_step \<Rightarrow> ('e + 'h ExtendedKey) \<times> 's \<Rightarrow> 32 word \<Rightarrow> ('e + 'h ExtendedKey) \<times> 's" where
  "fold_step step acc i =
     (case acc of (Inl err, s) \<Rightarrow> (Inl err, s) | (Inr key, s) \<Rightarrow> Child step key i s)"

text \<open>
  The literals that \<open>SetString\<close> with base 0 accepts, stated on the text rather than
  by the scanner. After an optional sign: \<open>0\<close> alone; or a prefix \<open>0b\<close>, \<open>0B\<close>
  (base 2), \<open>0o\<close>, \<open>0O\<close>, a plain \<open>0\<close> (base 8), \<open>0x\<close>, \<open>0X\<close> (base 16)
  followed by digits of that base; or, with no prefix, decimal digits. The digits may
  be separated by single underscores, one of which may also follow the prefix; there
  is at least one digit and no underscore at the end.
\<close>

fun double_sep :: "string \<Rightarrow> bool" where
  "double_sep (a # b # r) = (a = CHR ''_'' \<and> b = CHR ''_'' \<or> double_sep (b # r))"
| "double_sep _ = False"

definition base_digits :: "nat \<Rightarrow> bool \<Rightarrow> string \<Rightarrow> nat option" where
  "base_digits b after_prefix t =
     (if t \<noteq> [] \<and> (\<forall>c\<in>set t. scannable b c) \<and> digits_of t \<noteq> []
         \<and> last t \<noteq> CHR ''_'' \<and> (after_prefix \<or> hd t \<noteq> CHR ''_'') \<and> \<not> double_sep t
      then Some (number_value b 0 (digits_of t)) else None)"

definition unsigned_literal :: "string \<Rightarrow> nat option" where
  "unsigned_literal s =
     (case s of
        [] \<Rightarrow> None
      | ch # r \<Rightarrow>
          if ch \<noteq> CHR ''0'' then base_digits 10 False s
          else (case r of
                  [] \<Rightarrow> Some 0
                | ch' # r' \<Rightarrow>
                    if ch' = CHR ''b'' \<or> ch' = CHR ''B'' then base_digits 2 True r'
                    else if ch' = CHR ''o'' \<or> ch' = CHR ''O'' then base_digits 8 True r'
                    else if ch' = CHR ''x'' \<or> ch' = CHR ''X'' then base_digits 16 True r'
                    else base_digits 8 True r))"

definition literal_value :: "string \<Rightarrow> int option" where
  "literal_value s =
     (case s of
        [] \<Rightarrow> None
      | ch # r \<Rightarrow>
          if ch = CHR ''-'' then map_option (\<lambda>n. - int n) (unsigned_literal r)
          else if ch = CHR ''+'' then map_option int (unsigned_literal r)
          else map_option int (unsigned_literal s))"

text \<open>
  The result of the scanner as \<open>SetString\<close> uses it: a number, if there was no
  error and nothing was left unread.
\<close>

definition scan_ok :: "(scan_error + nat) \<times> string \<Rightarrow> nat option" where
  "scan_ok res = (case res of (Inr n, []) \<Rightarrow> Some n | _ \<Rightarrow> None)"

text \<open>
  The convention of C as the specification words it, for comparison: after an
  optional sign, a leading \<open>0x\<close> or \<open>0X\<close> is hexadecimal, a leading \<open>0\<close> is
  octal, anything else is decimal, and the text after the prefix is digits of that
  base only.
\<close>

definition plain_digits :: "nat \<Rightarrow> string \<Rightarrow> nat option" where
  "plain_digits b t =
     (if t \<noteq> [] \<and> (\<forall>c\<in>set t. digit_value c < b) then Some (number_value b 0 t) else None)"

definition c_style_unsigned :: "string \<Rightarrow> nat option" where
  "c_style_unsigned s =
     (case s of
        ch # ch' # r \<Rightarrow>
          if ch = CHR ''0'' \<and> (ch' = CHR ''x'' \<or> ch' = CHR ''X'') then plain_digits 16 r
          else if ch = CHR ''0'' then plain_digits 8 (ch' # r)
          else plain_digits 10 s
      | _ \<Rightarrow> plain_digits 10 s)"

definition c_style_literal :: "string \<Rightarrow> int option" where
  "c_style_literal s =
     (case s of
        [] \<Rightarrow> None
      | ch # r \<Rightarrow>
          if ch = CHR ''-'' then map_option (\<lambda>n. - int n) (c_style_unsigned r)
          else if ch = CHR ''+'' then map_option int (c_style_unsigned r)
          else map_option int (c_style_unsigned s))"

section \<open>Evaluation and structure of the string operations\<close>

lemma Split_Nil: "Split [] sep = [[]]"
  by (simp add: Split.simps)

lemma Split_Cons_sep: "Split (sep # cs) sep = [] # Split cs sep"
  by (subst Split.simps) simp

lemma Split_not_Nil: "Split s sep \<noteq> []"
  by (subst Split.simps) (simp split: list.split)

lemma Split_Cons_other:
  assumes "c \<noteq> sep"
  shows "Split (c # cs) sep = (c # hd (Split cs sep)) # tl (Split cs sep)"
proof (cases "dropWhile (\<lambda>c. c \<noteq> sep) cs")
  case Nil
  then have "Split cs sep = [cs]" by (subst Split.simps) (simp only: list.case)
  moreover from Nil assms have "dropWhile (\<lambda>c. c \<noteq> sep) (c # cs) = []" by simp
  then have "Split (c # cs) sep = [c # cs]" by (subst Split.simps) (simp only: list.case)
  ultimately show ?thesis by simp
next
  case (Cons x r)
  then have "Split cs sep = takeWhile (\<lambda>c. c \<noteq> sep) cs # Split r sep"
    by (subst Split.simps) simp
  moreover from Cons assms
  have "Split (c # cs) sep = (c # takeWhile (\<lambda>c. c \<noteq> sep) cs) # Split r sep"
    by (subst Split.simps) simp
  ultimately show ?thesis by simp
qed

lemma TrimLeft_stop: "space_width s = 0 \<Longrightarrow> TrimLeft s = s"
  by (subst TrimLeft.simps) simp

lemma TrimLeft_step: "space_width s \<noteq> 0 \<Longrightarrow> TrimLeft s = TrimLeft (drop (space_width s) s)"
  by (subst TrimLeft.simps) simp

lemma TrimRightRev_stop: "space_width_last r = 0 \<Longrightarrow> TrimRightRev r = r"
  by (subst TrimRightRev.simps) simp

lemma TrimRightRev_step:
  "space_width_last r \<noteq> 0 \<Longrightarrow> TrimRightRev r = TrimRightRev (drop (space_width_last r) r)"
  by (subst TrimRightRev.simps) simp

lemmas string_eval =
  Split.simps
  TrimSpace_def TrimRight_def TrimLeft_stop TrimLeft_step TrimRightRev_stop TrimRightRev_step
  asciiSpace_def e2_80_space_def HasSuffix_def TrimSuffix_def

lemmas number_eval =
  SetString_def nat_scan_def scan_finish_def digit_value_def Uint64_def Let_def

lemmas parse_eval =
  ParseDerivationPath_def parse_relative_def component_index_def strip_hardened_def
  returned_path_def

lemma component_index_error:
  "component_index c = Inl err \<Longrightarrow>
     (\<exists>t. err = InvalidComponent t) \<or> (\<exists>v m h. err = ComponentOutOfRange v m h)"
  by (auto simp: component_index_def Let_def split: prod.splits option.splits if_splits)

lemma parse_components_error:
  "parse_components cs result = Inl err \<Longrightarrow>
     (\<exists>t. err = InvalidComponent t) \<or> (\<exists>v m h. err = ComponentOutOfRange v m h)"
proof (induction cs arbitrary: result)
  case Nil
  then show ?case by simp
next
  case (Cons c cs)
  then show ?case
    by (auto split: sum.splits dest: component_index_error)
qed

lemma parse_components_Inr:
  "parse_components cs result = Inr p \<Longrightarrow>
     \<exists>idxs. p = result @ idxs \<and> list_all2 (\<lambda>c i. component_index c = Inr i) cs idxs"
proof (induction cs arbitrary: result)
  case Nil
  then show ?case by simp
next
  case (Cons c cs)
  from Cons.prems obtain v where v: "component_index c = Inr v"
    and rest: "parse_components cs (result @ [v]) = Inr p"
    by (auto split: sum.splits)
  from Cons.IH [OF rest] obtain idxs where "p = (result @ [v]) @ idxs"
    and "list_all2 (\<lambda>c i. component_index c = Inr i) cs idxs" by blast
  with v have "p = result @ (v # idxs) \<and> list_all2 (\<lambda>c i. component_index c = Inr i) (c # cs) (v # idxs)"
    by simp
  then show ?case by blast
qed

lemma parse_components_length:
  "parse_components cs result = Inr p \<Longrightarrow> length p = length result + length cs"
  by (auto dest!: parse_components_Inr simp: list_all2_lengthD)

lemma ParseDerivationPath_Cons:
  assumes "Split path (CHR ''/'') = c # cs"
  shows "ParseDerivationPath path base =
     (if TrimSpace c = [] then Inl AmbiguousPath
      else if TrimSpace c = ''m'' then (if cs = [] then Inl EmptyPath else parse_components cs [])
      else (case base of [] \<Rightarrow> Inl MissingBasePath | b # _ \<Rightarrow> parse_components (c # cs) b))"
  using assms by (simp add: ParseDerivationPath_def parse_relative_def Let_def split: list.split)

section \<open>Decimal text and the number scanner\<close>

lemma dec_digit_char_of: "d < 10 \<Longrightarrow> dec_digit (char_of (48 + d :: nat))"
  by (simp add: dec_digit_def)

lemma digit_value_char_of: "d < 10 \<Longrightarrow> digit_value (char_of (48 + d :: nat)) = d"
  by (simp add: digit_value_def)

lemma fmt_d_not_Nil: "fmt_d n \<noteq> []"
  by (subst fmt_d.simps) simp

lemma fmt_d_digits: "c \<in> set (fmt_d n) \<Longrightarrow> dec_digit c"
proof (induction n arbitrary: c rule: fmt_d.induct)
  case (1 n)
  show ?case
  proof (cases "n < 10")
    case True
    with "1.prems" show ?thesis
      by (subst (asm) fmt_d.simps) (simp add: dec_digit_char_of)
  next
    case False
    with "1.prems" have "c \<in> set (fmt_d (n div 10)) \<or> c = char_of (48 + n mod 10)"
      by (subst (asm) fmt_d.simps) auto
    with False "1.IH" show ?thesis
      by (auto simp: dec_digit_char_of)
  qed
qed

lemma fmt_d_hd: "0 < n \<Longrightarrow> hd (fmt_d n) \<noteq> CHR ''0''"
proof (induction n rule: fmt_d.induct)
  case (1 n)
  show ?case
  proof (cases "n < 10")
    case True
    have "char_of (48 + n) \<noteq> CHR ''0''"
    proof
      assume "char_of (48 + n) = CHR ''0''"
      then have "digit_value (char_of (48 + n)) = digit_value (CHR ''0'')" by simp
      moreover have "digit_value (CHR ''0'') = 0" by (simp add: digit_value_def)
      ultimately show False using True "1.prems" by (simp add: digit_value_char_of)
    qed
    with True show ?thesis by (subst fmt_d.simps) simp
  next
    case False
    then have "0 < n div 10" by (simp add: div_greater_zero_iff)
    with False "1.IH" have "hd (fmt_d (n div 10)) \<noteq> CHR ''0''" by simp
    with False show ?thesis
      by (subst fmt_d.simps) (simp add: fmt_d_not_Nil)
  qed
qed

lemma fmt_d_value: "foldl (\<lambda>a c. a * 10 + digit_value c) 0 (fmt_d n) = n"
proof (induction n rule: fmt_d.induct)
  case (1 n)
  show ?case
  proof (cases "n < 10")
    case True
    then show ?thesis by (subst fmt_d.simps) (simp add: digit_value_char_of)
  next
    case False
    with "1.IH" show ?thesis
      by (subst fmt_d.simps) (simp add: digit_value_char_of)
  qed
qed

lemma scan_loop_scannable:
  assumes "\<forall>c\<in>set t. scannable b c"
  shows "\<exists>st'. scan_loop b t st = (st', [])
           \<and> sc_count st' = sc_count st + length (digits_of t)
           \<and> sc_z st' = number_value b (sc_z st) (digits_of t)
           \<and> (sc_invalSep st' \<or> sc_prev st' = CHR ''_'')
               = (sc_invalSep st \<or> sep_error (sc_prev st) t)"
  using assms
proof (induction t arbitrary: st)
  case Nil
  then show ?case by (simp add: digits_of_def number_value_def)
next
  case (Cons c r)
  show ?case
  proof (cases "c = CHR ''_''")
    case True
    let ?st = "st\<lparr>sc_invalSep := sc_invalSep st \<or> sc_prev st \<noteq> CHR ''0'', sc_prev := CHR ''_''\<rparr>"
    from Cons.prems have "\<forall>c\<in>set r. scannable b c" by simp
    from Cons.IH [OF this, of ?st] True show ?thesis
      by (auto simp: digits_of_def number_value_def)
  next
    case False
    let ?st = "st\<lparr>sc_prev := CHR ''0'', sc_count := sc_count st + 1,
                   sc_z := sc_z st * b + digit_value c\<rparr>"
    from Cons.prems False have lt: "digit_value c < b" by (simp add: scannable_def)
    from Cons.prems have "\<forall>c\<in>set r. scannable b c" by simp
    from Cons.IH [OF this, of ?st] False lt show ?thesis
      by (auto simp: digits_of_def number_value_def)
  qed
qed

lemma scan_loop_stop:
  assumes "\<forall>c\<in>set t. scannable b c" and "\<not> scannable b c"
  shows "snd (scan_loop b (t @ c # r) st) = c # r"
  using assms
proof (induction t arbitrary: st)
  case Nil
  then show ?case by (simp add: scannable_def)
next
  case (Cons a t)
  from Cons.prems have a: "a = CHR ''_'' \<or> digit_value a < b" and t: "\<forall>c\<in>set t. scannable b c"
    by (simp_all add: scannable_def)
  show ?case
  proof (cases "a = CHR ''_''")
    case True
    then show ?thesis using Cons.IH [OF t Cons.prems(2)] by simp
  next
    case False
    with a have "\<not> b \<le> digit_value a" by simp
    with False show ?thesis using Cons.IH [OF t Cons.prems(2)] by simp
  qed
qed

lemma dec_digit_scannable: "dec_digit c \<Longrightarrow> scannable 10 c \<and> c \<noteq> CHR ''_''"
  by (auto simp: dec_digit_def scannable_def digit_value_def)

lemma sep_error_digits:
  "\<forall>c\<in>set t. c \<noteq> CHR ''_'' \<Longrightarrow> t \<noteq> [] \<Longrightarrow> \<not> sep_error p t"
proof (induction t arbitrary: p)
  case Nil
  then show ?case by simp
next
  case (Cons c r)
  then show ?case by (cases r) auto
qed

lemma SetString_fmt_d: "SetString (fmt_d n) = Some (int n)"
proof (cases "n = 0")
  case True
  have "char_of (48 :: nat) = CHR ''0''" by code_simp
  then have "fmt_d 0 = ''0''" by (subst fmt_d.simps) simp
  with True show ?thesis by (simp add: number_eval)
next
  case False
  let ?s = "fmt_d n"
  let ?start = "\<lparr>sc_prev = CHR ''.'', sc_invalSep = False, sc_count = 0, sc_z = 0\<rparr>"
  obtain c r where s: "?s = c # r" using fmt_d_not_Nil [of n] by (cases ?s) auto
  have digits: "\<forall>c\<in>set ?s. dec_digit c" using fmt_d_digits by blast
  then have sc: "\<forall>c\<in>set ?s. scannable 10 c" and nosep: "\<forall>c\<in>set ?s. c \<noteq> CHR ''_''"
    using dec_digit_scannable by blast+
  from nosep have same: "digits_of ?s = ?s" by (simp add: digits_of_def)
  from scan_loop_scannable [OF sc, of ?start] obtain st' where
    loop: "scan_loop 10 ?s ?start = (st', [])" and
    count: "sc_count st' = length ?s" and
    val: "sc_z st' = number_value 10 0 ?s" and
    sep: "(sc_invalSep st' \<or> sc_prev st' = CHR ''_'') = sep_error (CHR ''.'') ?s"
    by (auto simp: same)
  from sep sep_error_digits [OF nosep fmt_d_not_Nil]
  have nosep_err: "\<not> sc_invalSep st'" "sc_prev st' \<noteq> CHR ''_''" by auto
  from count have pos: "sc_count st' \<noteq> 0" using fmt_d_not_Nil [of n] by simp
  from val have v: "sc_z st' = n" by (simp add: number_value_def fmt_d_value)
  from False have "hd ?s \<noteq> CHR ''0''" by (simp add: fmt_d_hd)
  with s have c0: "c \<noteq> CHR ''0''" by simp
  from digits s have "dec_digit c" by simp
  then have csign: "c \<noteq> CHR ''-''" "c \<noteq> CHR ''+''"
    by (auto simp: dec_digit_def)
  have "nat_scan (c # r) = (Inr n, [])"
    using c0 loop [unfolded s] nosep_err pos v
    by (simp add: nat_scan_def scan_finish_def del: scan_loop.simps)
  then have "SetString (c # r) = Some (int n)"
    using csign by (simp add: SetString_def)
  then show ?thesis by (simp add: s)
qed

section \<open>Trimming and reading back one index\<close>

lemma ucast_Uint64: "(ucast (Uint64 (uint (w :: 32 word))) :: 32 word) = w"
proof -
  have "Uint64 (uint w) = (ucast w :: 64 word)"
    by (simp add: Uint64_def)
  moreover have "(ucast (ucast w :: 64 word) :: 32 word) = w"
    by (rule ucast_up_ucast_id) (simp add: is_up)
  ultimately show ?thesis by simp
qed

lemma space_width_plain: "plain c \<Longrightarrow> space_width (c # r) = 0"
proof -
  assume p: "plain c"
  then have "c \<noteq> CHR 0xC2" "c \<noteq> CHR 0xE1" "c \<noteq> CHR 0xE2" "c \<noteq> CHR 0xE3" "\<not> asciiSpace c"
    by (auto simp: plain_def)
  then show ?thesis
    by (cases r rule: space_width.cases) auto
qed

lemma space_width_last_plain: "plain c \<Longrightarrow> space_width_last (c # r) = 0"
proof -
  assume p: "plain c"
  then have "c \<noteq> CHR 0x85" "c \<noteq> CHR 0xA0" "c \<noteq> CHR 0x80" "c \<noteq> CHR 0x9F"
    "\<not> e2_80_space c" "\<not> asciiSpace c"
    by (auto simp: plain_def e2_80_space_def)
  then show ?thesis
    by (cases "c # r" rule: space_width_last.cases) auto
qed

lemma TrimSpace_plain:
  assumes "s \<noteq> []" and "plain (hd s)" and "plain (last s)"
  shows "TrimSpace s = s"
proof -
  from assms obtain c r where s: "s = c # r" and "plain c" by (cases s) auto
  then have left: "TrimLeft s = s" by (simp add: TrimLeft_stop space_width_plain)
  from assms obtain d q where r: "rev s = d # q" and "plain d"
    by (cases "rev s") (auto simp: last_rev [symmetric] hd_rev)
  then have "TrimRightRev (rev s) = rev s"
    by (simp add: TrimRightRev_stop space_width_last_plain)
  with left show ?thesis by (simp add: TrimSpace_def TrimRight_def)
qed

lemma dec_digit_plain: "dec_digit c \<Longrightarrow> plain c"
  by (auto simp: dec_digit_def plain_def asciiSpace_def)

lemma apostrophe_plain: "plain (CHR 0x27)"
  by (simp add: plain_def asciiSpace_def)

lemma fmt_d_hd_digit: "dec_digit (hd (fmt_d n))"
  using fmt_d_digits [of "hd (fmt_d n)" n] fmt_d_not_Nil [of n] by simp

lemma fmt_d_last_digit: "dec_digit (last (fmt_d n))"
  using fmt_d_digits [of "last (fmt_d n)" n] fmt_d_not_Nil [of n] by simp

lemma TrimSpace_fmt_d: "TrimSpace (fmt_d n) = fmt_d n"
  by (rule TrimSpace_plain) (simp_all add: fmt_d_not_Nil dec_digit_plain fmt_d_hd_digit fmt_d_last_digit)

lemma TrimSpace_fmt_d_hardened: "TrimSpace (fmt_d n @ [CHR 0x27]) = fmt_d n @ [CHR 0x27]"
  by (rule TrimSpace_plain)
     (simp_all add: fmt_d_not_Nil dec_digit_plain fmt_d_hd_digit apostrophe_plain)

lemma strip_hardened_plain: "strip_hardened (fmt_d n) = (0, fmt_d n)"
proof -
  have "dec_digit (last (fmt_d n))" by (rule fmt_d_last_digit)
  then have "last (fmt_d n) \<noteq> CHR 0x27" by (auto simp: dec_digit_def)
  then have "\<not> HasSuffix (fmt_d n) [CHR 0x27]"
    using fmt_d_not_Nil [of n]
    by (cases "fmt_d n" rule: rev_cases) (auto simp: HasSuffix_def)
  then show ?thesis by (simp add: strip_hardened_def TrimSpace_fmt_d)
qed

lemma strip_hardened_apostrophe:
  "strip_hardened (fmt_d n @ [CHR 0x27]) = (0x80000000, fmt_d n)"
  by (simp add: strip_hardened_def TrimSpace_fmt_d_hardened HasSuffix_def TrimSuffix_def
      TrimSpace_fmt_d)

lemma hardened_value_bound:
  "(0x80000000 :: 32 word) \<le> c \<Longrightarrow> uint (c - 0x80000000) \<le> 0x7FFFFFFF"
proof -
  assume "(0x80000000 :: 32 word) \<le> c"
  then have "uint (0x80000000 :: 32 word) \<le> uint c" by (simp add: word_le_def)
  then have "uint (c - 0x80000000) = uint c - uint (0x80000000 :: 32 word)"
    by (simp only: uint_sub_lem)
  moreover have "uint c < 2 ^ 32" using uint_bounded [of c] by simp
  ultimately show ?thesis by simp
qed

lemma plain_value_bound: "uint (c :: 32 word) \<le> 0xFFFFFFFF"
  using uint_bounded [of c] by simp

lemma component_index_text: "component_index (index_text c) = Inr c"
proof (cases "c \<ge> 0x80000000")
  case True
  then show ?thesis
    using hardened_value_bound [OF True]
    by (simp add: component_index_def index_text_def strip_hardened_apostrophe
        SetString_fmt_d ucast_Uint64)
next
  case False
  then show ?thesis
    using plain_value_bound [of c]
    by (simp add: component_index_def index_text_def strip_hardened_plain
        SetString_fmt_d ucast_Uint64)
qed

section \<open>The canonical form, split and parsed\<close>

lemma String_loop_text:
  "String_loop acc p = acc @ concat (map (\<lambda>c. CHR ''/'' # index_text c) p)"
  by (induction p arbitrary: acc) (simp_all add: Let_def index_text_def)

lemma String_text: "String p = ''m'' @ concat (map (\<lambda>c. CHR ''/'' # index_text c) p)"
  by (simp add: String_def String_loop_text)

lemma Split_no_sep: "sep \<notin> set a \<Longrightarrow> Split a sep = [a]"
proof (induction a)
  case Nil
  then show ?case by (simp add: Split_Nil)
next
  case (Cons c a)
  then have "c \<noteq> sep" and "Split a sep = [a]" by auto
  then show ?case by (simp add: Split_Cons_other)
qed

lemma Split_append_sep: "sep \<notin> set a \<Longrightarrow> Split (a @ sep # b) sep = a # Split b sep"
proof (induction a)
  case Nil
  then show ?case by (simp add: Split_Cons_sep)
next
  case (Cons c a)
  then have "c \<noteq> sep" and "Split (a @ sep # b) sep = a # Split b sep" by auto
  then show ?case by (simp add: Split_Cons_other)
qed

lemma index_text_no_slash: "CHR ''/'' \<notin> set (index_text c)"
proof -
  have "dec_digit x \<Longrightarrow> x \<noteq> CHR ''/''" for x by (auto simp: dec_digit_def)
  then have "CHR ''/'' \<notin> set (fmt_d n)" for n using fmt_d_digits by blast
  then show ?thesis by (simp add: index_text_def)
qed

lemma Split_texts:
  "CHR ''/'' \<notin> set acc \<Longrightarrow>
     Split (acc @ concat (map (\<lambda>c. CHR ''/'' # index_text c) p)) (CHR ''/'') = acc # map index_text p"
proof (induction p arbitrary: acc)
  case Nil
  then show ?case by (simp add: Split_no_sep)
next
  case (Cons c p)
  have "Split (acc @ CHR ''/'' # (index_text c @ concat (map (\<lambda>c. CHR ''/'' # index_text c) p))) (CHR ''/'')
        = acc # Split (index_text c @ concat (map (\<lambda>c. CHR ''/'' # index_text c) p)) (CHR ''/'')"
    using Cons.prems by (rule Split_append_sep)
  also have "Split (index_text c @ concat (map (\<lambda>c. CHR ''/'' # index_text c) p)) (CHR ''/'')
        = index_text c # map index_text p"
    by (rule Cons.IH) (rule index_text_no_slash)
  finally show ?case by simp
qed

lemma Split_String: "Split (String p) (CHR ''/'') = ''m'' # map index_text p"
  unfolding String_text by (rule Split_texts) simp

lemma parse_components_texts: "parse_components (map index_text p) result = Inr (result @ p)"
  by (induction p arbitrary: result) (simp_all add: component_index_text)

lemma TrimSpace_m: "TrimSpace ''m'' = ''m''"
  by (simp add: string_eval)

lemma parse_String: "p \<noteq> [] \<Longrightarrow> ParseDerivationPath (String p) base = Inr p"
  by (simp add: ParseDerivationPath_Cons [OF Split_String] TrimSpace_m parse_components_texts)

lemma parse_Inr_not_Nil: "ParseDerivationPath path base = Inr p \<Longrightarrow> p \<noteq> []"
proof -
  assume ok: "ParseDerivationPath path base = Inr p"
  obtain c cs where split: "Split path (CHR ''/'') = c # cs"
    using Split_not_Nil [of path "CHR ''/''"] by (cases "Split path (CHR ''/'')") auto
  from ok have "\<exists>xs r. xs \<noteq> [] \<and> parse_components xs r = Inr p"
    unfolding ParseDerivationPath_Cons [OF split]
    by (auto simp del: parse_components.simps split: if_splits list.splits)
  then obtain xs r where "xs \<noteq> []" and "parse_components xs r = Inr p" by blast
  then have "length p = length r + length xs" and "0 < length xs"
    by (simp_all add: parse_components_length)
  then show "p \<noteq> []" by auto
qed

lemma fmt_d_small: "n < 10 \<Longrightarrow> fmt_d n = [char_of (48 + n)]"
  by (subst fmt_d.simps) simp

lemma fmt_d_large:
  "\<not> n < 10 \<Longrightarrow> fmt_d n = fmt_d (n div 10) @ [char_of (48 + n mod 10)]"
  by (subst fmt_d.simps) simp

lemma digit_chars:
  "char_of (48 :: nat) = CHR ''0''" "char_of (49 :: nat) = CHR ''1''"
  "char_of (50 :: nat) = CHR ''2''" "char_of (51 :: nat) = CHR ''3''"
  "char_of (52 :: nat) = CHR ''4''" "char_of (53 :: nat) = CHR ''5''"
  "char_of (54 :: nat) = CHR ''6''" "char_of (55 :: nat) = CHR ''7''"
  "char_of (56 :: nat) = CHR ''8''" "char_of (57 :: nat) = CHR ''9''"
  by code_simp+

section \<open>The range check\<close>

lemma strip_hardened_offset:
  "strip_hardened c = (offset, text) \<Longrightarrow> offset = 0 \<or> offset = 0x80000000"
  by (auto simp: strip_hardened_def Let_def split: if_splits)

lemma ceiling_value:
  "offset = 0 \<or> offset = (0x80000000 :: 32 word) \<Longrightarrow>
     uint (0xFFFFFFFF - offset) = 2 ^ 32 - 1 - uint offset"
  by auto

lemma ucast_Uint64_int: "0 \<le> n \<Longrightarrow> (ucast (Uint64 n) :: 32 word) = word_of_int n"
proof -
  assume "0 \<le> n"
  then have "Uint64 n = word_of_int n" by (simp add: Uint64_def)
  moreover have "(ucast (word_of_int n :: 64 word) :: 32 word) = word_of_int n"
    by transfer simp
  ultimately show ?thesis by simp
qed

lemma component_index_cases:
  assumes "strip_hardened c = (offset, text)" and "SetString text = Some n"
  shows "component_index c =
           (if n < 0 \<or> n > 2 ^ 32 - 1 - uint offset
            then Inl (ComponentOutOfRange n (0xFFFFFFFF - offset) (offset \<noteq> 0))
            else Inr (offset + word_of_int n))"
  using assms ceiling_value [OF strip_hardened_offset [OF assms(1)]]
  by (auto simp: component_index_def Let_def ucast_Uint64_int)

lemma index_no_wrap:
  assumes "offset = 0 \<or> offset = (0x80000000 :: 32 word)"
    and "0 \<le> n" and "n \<le> 2 ^ 32 - 1 - uint offset"
  shows "uint (offset + word_of_int n) = uint offset + n"
proof -
  from assms have small: "uint offset + n < 2 ^ 32" and n: "n < 2 ^ 32" by auto
  from assms(2) n have "uint (word_of_int n :: 32 word) = n"
    by (intro word_of_int_inverse [OF refl]) simp_all
  then have "uint (offset + word_of_int n) = (uint offset + n) mod 2 ^ 32"
    by (simp add: uint_word_ariths)
  with small assms(2) show ?thesis by simp
qed

lemma component_index_Inr:
  assumes "component_index c = Inr i"
  shows "\<exists>n. SetString (snd (strip_hardened c)) = Some n \<and> 0 \<le> n
           \<and> n \<le> 2 ^ 32 - 1 - uint (fst (strip_hardened c))
           \<and> uint i = uint (fst (strip_hardened c)) + n"
proof -
  obtain offset t where sh: "strip_hardened c = (offset, t)"
    by (cases "strip_hardened c")
  from assms sh obtain n where n: "SetString t = Some n"
    by (auto simp: component_index_def split: option.splits)
  note off = strip_hardened_offset [OF sh]
  from assms component_index_cases [OF sh n]
  have range: "0 \<le> n" "n \<le> 2 ^ 32 - 1 - uint offset" and i: "i = offset + word_of_int n"
    by (auto split: if_splits)
  from index_no_wrap [OF off range] i sh n range show ?thesis by simp
qed

lemma parse_path_components:
  assumes "ParseDerivationPath path base = Inr p"
  shows "\<exists>result. parse_components (path_components path) result = Inr p"
proof -
  obtain c cs where split: "Split path (CHR ''/'') = c # cs"
    using Split_not_Nil [of path "CHR ''/''"] by (cases "Split path (CHR ''/'')") auto
  show ?thesis
  proof (cases "TrimSpace c = ''m''")
    case True
    with assms split show ?thesis
      by (auto simp: ParseDerivationPath_Cons [OF split] path_components_def
               simp del: parse_components.simps split: if_splits)
  next
    case False
    with assms split show ?thesis
      by (auto simp: ParseDerivationPath_Cons [OF split] path_components_def
               simp del: parse_components.simps split: if_splits list.splits)
  qed
qed

section \<open>The derivation loop\<close>

lemma foldl_failed: "foldl (fold_step step) (Inl err, s) path = (Inl err, s)"
  by (induction path) (simp_all add: fold_step_def)

lemma fold_step_Inr: "fold_step step (Inr key, s) i = Child step key i s"
  by (simp add: fold_step_def)

lemma DeriveKey_foldl:
  "DeriveKey step master path s = foldl (fold_step step) (Inr master, s) path"
proof (induction path arbitrary: master s)
  case Nil
  show ?case by simp
next
  case (Cons v rest)
  obtain r s' where c: "Child step master v s = (r, s')" by (cases "Child step master v s")
  show ?case
  proof (cases r)
    case (Inl err)
    with c show ?thesis by (simp add: fold_step_Inr foldl_failed)
  next
    case (Inr key)
    with c Cons.IH [of key s'] show ?thesis by (simp add: fold_step_Inr)
  qed
qed

lemma DeriveKey_append:
  "DeriveKey step master (pre @ post) s =
     (case DeriveKey step master pre s of
        (Inl err, s') \<Rightarrow> (Inl err, s')
      | (Inr key, s') \<Rightarrow> DeriveKey step key post s')"
  by (induction pre arbitrary: master s) (auto split: prod.splits sum.splits)

lemma Child_counting:
  "Child (counting f) key i n =
     (case key of ExtendedKey inner \<Rightarrow>
        (case f inner i of Inl err \<Rightarrow> Inl err | Inr k \<Rightarrow> Inr (ExtendedKey k)), Suc n)"
  by (cases key) (simp add: Child_def counting_def split: sum.splits)

lemma DeriveKey_counting_success:
  "DeriveKey (counting f) master path n = (Inr key, n') \<Longrightarrow> n' = n + length path"
proof (induction path arbitrary: master n)
  case Nil
  then show ?case by simp
next
  case (Cons v rest)
  from Cons.prems obtain k where "Child (counting f) master v n = (Inr k, Suc n)"
    and "DeriveKey (counting f) k rest (Suc n) = (Inr key, n')"
    by (auto simp: Child_counting split: sum.splits prod.splits ExtendedKey.splits)
  from Cons.IH [OF this(2)] show ?case by simp
qed

section \<open>Relative strings without a base\<close>

lemma parse_relative_no_base:
  assumes "TrimSpace (Split s (CHR ''/'') ! 0) \<noteq> []"
    and "TrimSpace (Split s (CHR ''/'') ! 0) \<noteq> ''m''"
  shows "ParseDerivationPath s [] = Inl MissingBasePath"
proof -
  obtain c cs where split: "Split s (CHR ''/'') = c # cs"
    using Split_not_Nil [of s "CHR ''/''"] by (cases "Split s (CHR ''/'')") auto
  with assms show ?thesis by (simp add: ParseDerivationPath_Cons [OF split])
qed

section \<open>The scanner and the literal grammar\<close>

lemma sep_error_iff:
  "sep_error p t \<longleftrightarrow>
     (t = [] \<and> p = CHR ''_'')
     \<or> (t \<noteq> [] \<and> (last t = CHR ''_'' \<or> (hd t = CHR ''_'' \<and> p \<noteq> CHR ''0'') \<or> double_sep t))"
proof (induction t arbitrary: p)
  case Nil
  show ?case by simp
next
  case (Cons c r)
  show ?case
  proof (cases r)
    case Nil
    then show ?thesis by auto
  next
    case (Cons d r')
    with Cons.IH [of "CHR ''_''"] Cons.IH [of "CHR ''0''"] show ?thesis
      by (cases "c = CHR ''_''") auto
  qed
qed

lemma digits_of_Nil_last: "t \<noteq> [] \<Longrightarrow> digits_of t = [] \<Longrightarrow> last t = CHR ''_''"
proof -
  assume "t \<noteq> []" and "digits_of t = []"
  then have "\<forall>c\<in>set t. c = CHR ''_''" by (auto simp: digits_of_def filter_empty_conv)
  with \<open>t \<noteq> []\<close> show ?thesis using last_in_set [of t] by blast
qed

lemma scan_ok_simps:
  "scan_ok (Inr n, []) = Some n" "scan_ok (Inl e, u) = None" "u \<noteq> [] \<Longrightarrow> scan_ok (r, u) = None"
  by (auto simp: scan_ok_def split: sum.splits list.splits)

lemma scan_finish_unread: "snd (scan_finish prefix (st, unread)) = unread"
  by (simp add: scan_finish_def Let_def)

lemma scan_rejects:
  assumes "\<not> (\<forall>c\<in>set t. scannable b c)"
  shows "scan_ok (scan_finish prefix (scan_loop b t st)) = None"
proof -
  from assms have "\<exists>c\<in>set t. \<not> scannable b c" by simp
  from split_list_first_prop [OF this] obtain pre c r where t: "t = pre @ c # r"
    and c: "\<not> scannable b c" and pre: "\<forall>y\<in>set pre. \<not> \<not> scannable b y" by blast
  from pre have "\<forall>y\<in>set pre. scannable b y" by simp
  from scan_loop_stop [OF this c] have "snd (scan_loop b t st) = c # r" by (simp add: t)
  then obtain st' where "scan_loop b t st = (st', c # r)" by (cases "scan_loop b t st") auto
  then have "snd (scan_finish prefix (scan_loop b t st)) = c # r"
    by (simp add: scan_finish_unread)
  then show ?thesis
    by (cases "scan_finish prefix (scan_loop b t st)") (simp add: scan_ok_simps)
qed

lemma scan_base_digits:
  assumes p: "p = CHR ''0'' \<or> p = CHR ''.''"
    and prefix: "prefix = CHR ''0'' \<longrightarrow> t \<noteq> []"
  shows "scan_ok (scan_finish prefix
           (scan_loop b t \<lparr>sc_prev = p, sc_invalSep = False, sc_count = 0, sc_z = 0\<rparr>))
         = base_digits b (p = CHR ''0'') t"
proof (cases "\<forall>c\<in>set t. scannable b c")
  case False
  then show ?thesis by (simp add: scan_rejects base_digits_def)
next
  case True
  let ?start = "\<lparr>sc_prev = p, sc_invalSep = False, sc_count = 0, sc_z = 0\<rparr>"
  from scan_loop_scannable [OF True, of ?start] obtain st' where
    loop: "scan_loop b t ?start = (st', [])" and
    count: "sc_count st' = length (digits_of t)" and
    val: "sc_z st' = number_value b 0 (digits_of t)" and
    sep: "(sc_invalSep st' \<or> sc_prev st' = CHR ''_'') = sep_error p t"
    by auto
  show ?thesis
  proof (cases "digits_of t = []")
    case True
    have "t \<noteq> [] \<Longrightarrow> sep_error p t"
      using digits_of_Nil_last [OF _ True] by (simp add: sep_error_iff)
    with prefix True count sep loop show ?thesis
      by (auto simp: scan_finish_def Let_def base_digits_def scan_ok_simps)
  next
    case False
    then have "t \<noteq> []" by (auto simp: digits_of_def)
    with p have "sep_error p t \<longleftrightarrow>
        last t = CHR ''_'' \<or> (hd t = CHR ''_'' \<and> p \<noteq> CHR ''0'') \<or> double_sep t"
      by (simp add: sep_error_iff)
    with False \<open>t \<noteq> []\<close> True count val sep loop show ?thesis
      by (auto simp: scan_finish_def Let_def base_digits_def scan_ok_simps)
  qed
qed

lemma nat_scan_literal: "scan_ok (nat_scan s) = unsigned_literal s"
proof (cases s)
  case Nil
  then show ?thesis by (simp add: nat_scan_def unsigned_literal_def scan_ok_simps)
next
  case (Cons ch r)
  show ?thesis
  proof (cases "ch = CHR ''0''")
    case False
    with Cons scan_base_digits [of "CHR ''.''" "CHR 0x00" s 10] show ?thesis
      by (simp add: nat_scan_def unsigned_literal_def del: scan_loop.simps)
  next
    case True
    show ?thesis
    proof (cases r)
      case Nil
      with Cons True show ?thesis
        by (simp add: nat_scan_def unsigned_literal_def scan_ok_simps)
    next
      case (Cons ch' r')
      note r = Cons
      from scan_base_digits [of "CHR ''0''" "CHR ''b''" r' 2]
           scan_base_digits [of "CHR ''0''" "CHR ''o''" r' 8]
           scan_base_digits [of "CHR ''0''" "CHR ''x''" r' 16]
           scan_base_digits [of "CHR ''0''" "CHR ''0''" r 8]
           \<open>s = ch # r\<close> True r
      show ?thesis
        by (simp add: nat_scan_def unsigned_literal_def Let_def del: scan_loop.simps)
    qed
  qed
qed

lemma SetString_scan_ok:
  "SetString s =
     (case s of
        [] \<Rightarrow> None
      | ch # r \<Rightarrow>
          if ch = CHR ''-'' then map_option (\<lambda>n. - int n) (scan_ok (nat_scan r))
          else if ch = CHR ''+'' then map_option int (scan_ok (nat_scan r))
          else map_option int (scan_ok (nat_scan s)))"
  by (auto simp: SetString_def scan_ok_def Let_def split: list.splits sum.splits prod.splits)

lemma SetString_literal: "SetString s = literal_value s"
  by (simp add: SetString_scan_ok literal_value_def nat_scan_literal split: list.splits)

lemma double_sep_none: "CHR ''_'' \<notin> set t \<Longrightarrow> \<not> double_sep t"
  by (induction t rule: double_sep.induct) auto

lemma digit_value_sep: "digit_value (CHR ''_'') = 63"
  by (simp add: digit_value_def)

lemma plain_base_digits:
  assumes "plain_digits b t = Some v" and "b \<le> 16"
  shows "base_digits b after_prefix t = Some v"
proof -
  from assms(1) have t: "t \<noteq> []" and d: "\<forall>c\<in>set t. digit_value c < b"
    and v: "v = number_value b 0 t"
    by (auto simp: plain_digits_def split: if_splits)
  from d assms(2) have nosep: "CHR ''_'' \<notin> set t"
    using digit_value_sep by fastforce
  then have same: "digits_of t = t" by (auto simp: digits_of_def filter_id_conv)
  from t have "last t \<in> set t" "hd t \<in> set t" by simp_all
  with nosep have "last t \<noteq> CHR ''_''" "hd t \<noteq> CHR ''_''" by metis+
  with t d v same double_sep_none [OF nosep] show ?thesis
    by (simp add: base_digits_def scannable_def)
qed

lemma c_style_unsigned_literal:
  assumes "c_style_unsigned s = Some v"
  shows "unsigned_literal s = Some v"
proof (cases s)
  case Nil
  with assms show ?thesis by (simp add: c_style_unsigned_def plain_digits_def)
next
  case (Cons ch r)
  note s = Cons
  show ?thesis
  proof (cases r)
    case Nil
    show ?thesis
    proof (cases "ch = CHR ''0''")
      case True
      with assms s Nil show ?thesis
        by (simp add: c_style_unsigned_def plain_digits_def unsigned_literal_def
            number_value_def digit_value_def)
    next
      case False
      from assms s Nil have "plain_digits 10 s = Some v" by (simp add: c_style_unsigned_def)
      from plain_base_digits [OF this] False s show ?thesis
        by (simp add: unsigned_literal_def)
    qed
  next
    case (Cons ch' r')
    show ?thesis
    proof (cases "ch = CHR ''0''")
      case False
      from assms s Cons False have "plain_digits 10 s = Some v"
        by (simp add: c_style_unsigned_def)
      from plain_base_digits [OF this] False s show ?thesis
        by (simp add: unsigned_literal_def)
    next
      case True
      show ?thesis
      proof (cases "ch' = CHR ''x'' \<or> ch' = CHR ''X''")
        case x: True
        from assms s Cons True x have "plain_digits 16 r' = Some v"
          by (auto simp: c_style_unsigned_def)
        from plain_base_digits [OF this] True s Cons x show ?thesis
          by (auto simp: unsigned_literal_def)
      next
        case x: False
        from assms s Cons True x have p: "plain_digits 8 r = Some v"
          by (simp add: c_style_unsigned_def)
        then have "digit_value ch' < 8" using Cons by (auto simp: plain_digits_def split: if_splits)
        then have "ch' \<noteq> CHR ''b''" "ch' \<noteq> CHR ''B''" "ch' \<noteq> CHR ''o''" "ch' \<noteq> CHR ''O''"
          by (auto simp: digit_value_def)
        with plain_base_digits [OF p, of True] True s Cons x show ?thesis
          by (simp add: unsigned_literal_def)
      qed
    qed
  qed
qed

lemma c_style_literal_value: "c_style_literal s = Some v \<Longrightarrow> literal_value s = Some v"
  by (auto simp: c_style_literal_def literal_value_def
           split: list.splits if_splits dest: c_style_unsigned_literal)

lemma component_index_invalid:
  "strip_hardened c = (offset, t) \<Longrightarrow> SetString t = None \<Longrightarrow>
     component_index c = Inl (InvalidComponent t)"
  by (simp add: component_index_def)

lemmas literal_eval =
  literal_value_def unsigned_literal_def base_digits_def scannable_def digits_of_def
  number_value_def digit_value_def c_style_literal_def c_style_unsigned_def plain_digits_def

section \<open>Properties of the specification\<close>

text \<open>
  C9. Splitting any string at \<open>/\<close> gives at least one component, so the first
  check of \<open>ParseDerivationPath\<close> (no component at all) never fires: the error
  \<open>EmptyPath\<close> comes from the second check only, when the single component is
  \<open>m\<close>. Parsing the empty string fails with \<open>AmbiguousPath\<close>, whatever the base.
\<close>

theorem split_yields_component:
  "1 \<le> length (Split path (CHR ''/''))
   \<and> (ParseDerivationPath path base = Inl EmptyPath
        \<longleftrightarrow> length (Split path (CHR ''/'')) = 1 \<and> TrimSpace (Split path (CHR ''/'') ! 0) = ''m'')
   \<and> ParseDerivationPath '''' base = Inl AmbiguousPath"
proof -
  obtain c cs where split: "Split path (CHR ''/'') = c # cs"
    using Split_not_Nil [of path "CHR ''/''"] by (cases "Split path (CHR ''/'')") auto
  have no: "parse_components xs r \<noteq> Inl EmptyPath" for xs r
    using parse_components_error [of xs r EmptyPath] by auto
  have "1 \<le> length (Split path (CHR ''/''))"
    using split by simp
  moreover have "ParseDerivationPath path base = Inl EmptyPath
        \<longleftrightarrow> length (Split path (CHR ''/'')) = 1 \<and> TrimSpace (Split path (CHR ''/'') ! 0) = ''m''"
    using no by (auto simp: ParseDerivationPath_Cons [OF split] split simp del: parse_components.simps split: list.splits)
  moreover have "ParseDerivationPath '''' base = Inl AmbiguousPath"
    by (simp add: parse_eval string_eval)
  ultimately show ?thesis by blast
qed

text \<open>
  C10. A path that \<open>ParseDerivationPath\<close> returns without an error has at least one
  index, for every string and base. The empty path is no result of parsing: its
  canonical form is \<open>m\<close>, which does not parse.
\<close>

theorem parse_result_nonempty:
  "(ParseDerivationPath path base = Inr p \<longrightarrow> p \<noteq> [])
   \<and> String [] = ''m''
   \<and> ParseDerivationPath (String []) [] = Inl EmptyPath"
proof (intro conjI impI)
  show "String [] = ''m''" by (simp add: String_def)
  then show "ParseDerivationPath (String []) [] = Inl EmptyPath"
    by (simp add: parse_eval string_eval)
  show "p \<noteq> []" if "ParseDerivationPath path base = Inr p"
    using that by (rule parse_Inr_not_Nil)
qed

theorem parse_result_nonempty_witness:
  "ParseDerivationPath ''m/0'' [] = Inr [0] \<and> [0 :: 32 word] \<noteq> []"
proof -
  have "ParseDerivationPath ''m/0'' [] = Inr [0]"
    by (simp add: parse_eval string_eval number_eval)
  with parse_result_nonempty [of "''m/0''" "[]" "[0]"] show ?thesis by simp
qed

text \<open>
  C5, as amended. Parsing \<open>m/\<close> fails with \<open>InvalidComponent\<close> of the empty text
  (the component after the separator is empty and is no number), and parsing \<open>/m\<close>
  fails with \<open>AmbiguousPath\<close>; neither returns a path, whatever the base.
\<close>

theorem trailing_or_leading_separator_fails:
  "ParseDerivationPath ''m/'' base = Inl (InvalidComponent [])
   \<and> ParseDerivationPath ''/m'' base = Inl AmbiguousPath"
  by (simp add: parse_eval string_eval number_eval)

text \<open>
  The error for \<open>m/\<close> is neither \<open>AmbiguousPath\<close> nor \<open>EmptyPath\<close>.
\<close>

theorem trailing_separator_counterexample:
  "ParseDerivationPath ''m/'' [] = Inl (InvalidComponent [])
   \<and> InvalidComponent [] \<noteq> AmbiguousPath \<and> InvalidComponent [] \<noteq> EmptyPath"
  by (simp add: parse_eval string_eval number_eval)

text \<open>
  C6. Parsing \<open>m\<close> alone fails with \<open>EmptyPath\<close> and so returns the \<open>nil\<close>
  path; with that path as the base, the relative path \<open>44'/60'\<close> parses to the
  two hardened indices 0x8000002C and 0x8000003C.
\<close>

theorem relative_to_empty_base:
  "ParseDerivationPath (''44'/60'' @ [CHR 0x27]) [returned_path (ParseDerivationPath ''m'' [])]
     = Inr [0x8000002C, 0x8000003C]
   \<and> ParseDerivationPath ''m'' [] = Inl EmptyPath"
  by (simp add: parse_eval string_eval number_eval)

text \<open>
  C1. Every path that \<open>ParseDerivationPath\<close> returns without an error, for any
  string and base, is parsed back from its canonical form: with no base path,
  parsing \<open>String path\<close> succeeds and gives \<open>path\<close> again.
\<close>

theorem string_round_trip:
  "ParseDerivationPath s base = Inr path \<Longrightarrow> ParseDerivationPath (String path) [] = Inr path"
  by (rule parse_String) (rule parse_Inr_not_Nil)

theorem string_round_trip_witness:
  "ParseDerivationPath (''44'/0x3c'/ 0'' @ [CHR 0x27]) [[7]] = Inr [7, 0x8000002C, 0x8000003C, 0x80000000]
   \<and> String [7, 0x8000002C, 0x8000003C, 0x80000000] = ''m/7/44'/60'/0'' @ [CHR 0x27]
   \<and> ParseDerivationPath (String [7, 0x8000002C, 0x8000003C, 0x80000000]) []
       = Inr [7, 0x8000002C, 0x8000003C, 0x80000000]"
proof -
  have p: "ParseDerivationPath (''44'/0x3c'/ 0'' @ [CHR 0x27]) [[7]]
           = Inr [7, 0x8000002C, 0x8000003C, 0x80000000]"
    by (simp add: parse_eval string_eval number_eval)
  have s: "String [7, 0x8000002C, 0x8000003C, 0x80000000] = ''m/7/44'/60'/0'' @ [CHR 0x27]"
    by (simp add: String_def Let_def fmt_d_small fmt_d_large digit_chars)
  from string_round_trip [OF p] p s show ?thesis by simp
qed

text \<open>
  C2, as amended. For every component of a path string that \<open>ParseDerivationPath\<close>
  accepts, the number read (before the hardened offset is added) is at least 0 and at
  most \<open>2^32 - 1\<close> minus the offset: at most \<open>2^31 - 1\<close> for a hardened component,
  at most \<open>2^32 - 1\<close> for one that is not hardened. The bound is enforced while
  parsing, and the stored index is the offset plus the number, without wrap-around.
  The accepted path ends with the indices of these components, in order.
\<close>

theorem numeric_value_bound:
  assumes "ParseDerivationPath path base = Inr p"
  shows "\<exists>pre idxs. p = pre @ idxs \<and>
           list_all2 (\<lambda>c i. \<exists>n. SetString (snd (strip_hardened c)) = Some n
                \<and> 0 \<le> n
                \<and> n \<le> (if fst (strip_hardened c) = 0 then 2 ^ 32 - 1 else 2 ^ 31 - 1)
                \<and> (fst (strip_hardened c) = 0 \<or> fst (strip_hardened c) = 0x80000000)
                \<and> uint i = uint (fst (strip_hardened c)) + n)
             (path_components path) idxs"
proof -
  from parse_path_components [OF assms] obtain result
    where "parse_components (path_components path) result = Inr p" by blast
  from parse_components_Inr [OF this] obtain idxs where p: "p = result @ idxs"
    and all: "list_all2 (\<lambda>c i. component_index c = Inr i) (path_components path) idxs"
    by blast
  have step: "component_index c = Inr i \<Longrightarrow>
        \<exists>n. SetString (snd (strip_hardened c)) = Some n
                \<and> 0 \<le> n
                \<and> n \<le> (if fst (strip_hardened c) = 0 then 2 ^ 32 - 1 else 2 ^ 31 - 1)
                \<and> (fst (strip_hardened c) = 0 \<or> fst (strip_hardened c) = 0x80000000)
                \<and> uint i = uint (fst (strip_hardened c)) + n" for c i
  proof -
    assume ci: "component_index c = Inr i"
    have off: "fst (strip_hardened c) = 0 \<or> fst (strip_hardened c) = 0x80000000"
      using strip_hardened_offset [of c "fst (strip_hardened c)" "snd (strip_hardened c)"]
      by simp
    from component_index_Inr [OF ci] obtain n where
      "SetString (snd (strip_hardened c)) = Some n" "0 \<le> n"
      "n \<le> 2 ^ 32 - 1 - uint (fst (strip_hardened c))"
      "uint i = uint (fst (strip_hardened c)) + n" by blast
    with off show ?thesis by auto
  qed
  from all have "list_all2 (\<lambda>c i. \<exists>n. SetString (snd (strip_hardened c)) = Some n
                \<and> 0 \<le> n
                \<and> n \<le> (if fst (strip_hardened c) = 0 then 2 ^ 32 - 1 else 2 ^ 31 - 1)
                \<and> (fst (strip_hardened c) = 0 \<or> fst (strip_hardened c) = 0x80000000)
                \<and> uint i = uint (fst (strip_hardened c)) + n)
             (path_components path) idxs"
    by (rule list_all2_mono) (rule step)
  with p show ?thesis by blast
qed

theorem numeric_value_bound_witness:
  "ParseDerivationPath ''m/0x7fffffff'/4294967295'' [] = Inr [0xFFFFFFFF, 0xFFFFFFFF]
   \<and> (\<exists>pre idxs. [0xFFFFFFFF, 0xFFFFFFFF :: 32 word] = pre @ idxs \<and>
           list_all2 (\<lambda>c i. \<exists>n. SetString (snd (strip_hardened c)) = Some n
                \<and> 0 \<le> n
                \<and> n \<le> (if fst (strip_hardened c) = 0 then 2 ^ 32 - 1 else 2 ^ 31 - 1)
                \<and> (fst (strip_hardened c) = 0 \<or> fst (strip_hardened c) = 0x80000000)
                \<and> uint i = uint (fst (strip_hardened c)) + n)
             (path_components ''m/0x7fffffff'/4294967295'') idxs)"
proof -
  have p: "ParseDerivationPath ''m/0x7fffffff'/4294967295'' [] = Inr [0xFFFFFFFF, 0xFFFFFFFF]"
    by (simp add: parse_eval string_eval number_eval)
  show ?thesis by (rule conjI [OF p numeric_value_bound [OF p]])
qed

text \<open>
  The component \<open>2147483648\<close> is not hardened, is accepted, exceeds \<open>2^31 - 1\<close>,
  and its stored index has the high bit set.
\<close>

theorem non_hardened_high_bit_counterexample:
  "ParseDerivationPath ''m/2147483648'' [] = Inr [0x80000000]
   \<and> path_components ''m/2147483648'' = [''2147483648'']
   \<and> strip_hardened ''2147483648'' = (0, ''2147483648'')
   \<and> SetString ''2147483648'' = Some 2147483648
   \<and> \<not> (2147483648 :: int) \<le> 2 ^ 31 - 1
   \<and> bit (0x80000000 :: 32 word) 31"
  by (simp add: parse_eval string_eval number_eval path_components_def)

text \<open>
  C4. For a component whose text, after trimming and taking the hardened suffix off,
  reads as the integer \<open>n\<close>: the ceiling \<open>math.MaxUint32 - offset\<close> is 0xFFFFFFFF
  when the component is not hardened and 0x7FFFFFFF when it is; the component fails
  with an out-of-range error exactly when \<open>n\<close> is negative or exceeds the ceiling; the
  loop then stops with that error, and otherwise appends the index and goes on.
  Parsing \<open>m/4294967296\<close> and parsing \<open>m/2147483648'\<close> fail out of range.
\<close>

theorem range_enforcement:
  "(strip_hardened c = (offset, text) \<and> SetString text = Some n \<longrightarrow>
      uint ((0xFFFFFFFF :: 32 word) - offset) = (if offset = 0 then 0xFFFFFFFF else 0x7FFFFFFF)
      \<and> ((\<exists>v m h. component_index c = Inl (ComponentOutOfRange v m h))
            \<longleftrightarrow> n < 0 \<or> n > uint ((0xFFFFFFFF :: 32 word) - offset))
      \<and> parse_components (c # rest) result =
           (if n < 0 \<or> n > uint ((0xFFFFFFFF :: 32 word) - offset)
            then Inl (ComponentOutOfRange n (0xFFFFFFFF - offset) (offset \<noteq> 0))
            else parse_components rest (result @ [offset + word_of_int n])))
   \<and> ParseDerivationPath ''m/4294967296'' base
        = Inl (ComponentOutOfRange 4294967296 0xFFFFFFFF False)
   \<and> ParseDerivationPath (''m/2147483648'' @ [CHR 0x27]) base
        = Inl (ComponentOutOfRange 2147483648 0x7FFFFFFF True)"
proof (intro conjI impI)
  show "ParseDerivationPath ''m/4294967296'' base
        = Inl (ComponentOutOfRange 4294967296 0xFFFFFFFF False)"
    by (simp add: parse_eval string_eval number_eval)
  show "ParseDerivationPath (''m/2147483648'' @ [CHR 0x27]) base
        = Inl (ComponentOutOfRange 2147483648 0x7FFFFFFF True)"
    by (simp add: parse_eval string_eval number_eval)
next
  assume a: "strip_hardened c = (offset, text) \<and> SetString text = Some n"
  then have sh: "strip_hardened c = (offset, text)" and n: "SetString text = Some n" by auto
  note off = strip_hardened_offset [OF sh]
  note ceil = ceiling_value [OF off]
  note ci = component_index_cases [OF sh n]
  from off show "uint ((0xFFFFFFFF :: 32 word) - offset) = (if offset = 0 then 0xFFFFFFFF else 0x7FFFFFFF)"
    by auto
  from ci ceil show "(\<exists>v m h. component_index c = Inl (ComponentOutOfRange v m h))
            \<longleftrightarrow> n < 0 \<or> n > uint ((0xFFFFFFFF :: 32 word) - offset)"
    by auto
  from ci ceil show "parse_components (c # rest) result =
           (if n < 0 \<or> n > uint ((0xFFFFFFFF :: 32 word) - offset)
            then Inl (ComponentOutOfRange n (0xFFFFFFFF - offset) (offset \<noteq> 0))
            else parse_components rest (result @ [offset + word_of_int n]))"
    by auto
qed

theorem range_enforcement_witness:
  "strip_hardened (''2147483648'' @ [CHR 0x27]) = (0x80000000, ''2147483648'')
   \<and> SetString ''2147483648'' = Some 2147483648
   \<and> component_index (''2147483648'' @ [CHR 0x27])
        = Inl (ComponentOutOfRange 2147483648 0x7FFFFFFF True)
   \<and> strip_hardened (''2147483647'' @ [CHR 0x27]) = (0x80000000, ''2147483647'')
   \<and> SetString ''2147483647'' = Some 2147483647
   \<and> parse_components [''2147483647'' @ [CHR 0x27]] [] = Inr [0xFFFFFFFF]"
proof -
  have a: "strip_hardened (''2147483648'' @ [CHR 0x27]) = (0x80000000, ''2147483648'')
           \<and> SetString ''2147483648'' = Some 2147483648"
    by (simp add: strip_hardened_def string_eval number_eval)
  have b: "strip_hardened (''2147483647'' @ [CHR 0x27]) = (0x80000000, ''2147483647'')
           \<and> SetString ''2147483647'' = Some 2147483647"
    by (simp add: strip_hardened_def string_eval number_eval)
  note ra = range_enforcement [THEN conjunct1, rule_format, OF a, of "[]" "[]"]
  note rb = range_enforcement [THEN conjunct1, rule_format, OF b, of "[]" "[]"]
  from ra have "component_index (''2147483648'' @ [CHR 0x27])
        = Inl (ComponentOutOfRange 2147483648 0x7FFFFFFF True)"
    by (simp split: sum.splits)
  moreover from rb have "parse_components [''2147483647'' @ [CHR 0x27]] [] = Inr [0xFFFFFFFF]"
    by simp
  ultimately show ?thesis using a b by simp
qed

text \<open>
  C3. \<open>DeriveKey\<close> is the left fold of \<open>Child\<close> over the indices of the path,
  starting from the master key, in which a failed step is passed on and no later
  step is taken: the state of the library after \<open>DeriveKey\<close> is its state after the
  failing step. The empty path returns the master key. With a library that counts
  the steps asked of it, a failure at the step after \<open>pre\<close> leaves the count at
  \<open>length pre + 1\<close>, and success leaves it at the length of the path.
\<close>

theorem derive_key_fail_fast_fold:
  "DeriveKey step master path s = foldl (fold_step step) (Inr master, s) path
   \<and> DeriveKey step master [] s = (Inr master, s)
   \<and> (DeriveKey step master pre s = (Inr key, s1) \<and> Child step key i s1 = (Inl err, s2)
        \<longrightarrow> DeriveKey step master (pre @ i # post) s = (Inl err, s2))
   \<and> (DeriveKey (counting f) master' pre n = (Inr key', n1)
        \<and> fst (Child (counting f) key' i n1) = Inl err'
        \<longrightarrow> DeriveKey (counting f) master' (pre @ i # post) n = (Inl err', n + length pre + 1))
   \<and> (DeriveKey (counting f) master' path n = (Inr key', n') \<longrightarrow> n' = n + length path)"
proof (intro conjI impI)
  show "DeriveKey step master path s = foldl (fold_step step) (Inr master, s) path"
    by (rule DeriveKey_foldl)
  show "DeriveKey step master [] s = (Inr master, s)" by simp
  show "DeriveKey step master (pre @ i # post) s = (Inl err, s2)"
    if "DeriveKey step master pre s = (Inr key, s1) \<and> Child step key i s1 = (Inl err, s2)"
    using that by (simp add: DeriveKey_append)
  show "DeriveKey (counting f) master' (pre @ i # post) n = (Inl err', n + length pre + 1)"
    if h: "DeriveKey (counting f) master' pre n = (Inr key', n1)
        \<and> fst (Child (counting f) key' i n1) = Inl err'"
  proof -
    from h have "n1 = n + length pre" by (auto dest: DeriveKey_counting_success)
    moreover from h have "Child (counting f) key' i n1 = (Inl err', Suc n1)"
      by (auto simp: Child_counting split: ExtendedKey.splits)
    ultimately show ?thesis using h by (simp add: DeriveKey_append)
  qed
  show "n' = n + length path" if "DeriveKey (counting f) master' path n = (Inr key', n')"
    using that by (rule DeriveKey_counting_success)
qed

theorem derive_key_fail_fast_fold_witness:
  "DeriveKey (counting (\<lambda>h i. if i = 3 then Inl ''invalid child'' else Inr (h + i)))
      (ExtendedKey (0 :: 32 word)) [1, 2] 0 = (Inr (ExtendedKey 3), 2)
   \<and> fst (Child (counting (\<lambda>h i. if i = 3 then Inl ''invalid child'' else Inr (h + i)))
      (ExtendedKey (3 :: 32 word)) 3 2) = Inl ''invalid child''
   \<and> DeriveKey (counting (\<lambda>h i. if i = 3 then Inl ''invalid child'' else Inr (h + i)))
      (ExtendedKey (0 :: 32 word)) [1, 2, 3, 4, 5] 0 = (Inl ''invalid child'', 3)"
proof -
  let ?f = "\<lambda>(h :: 32 word) (i :: 32 word). if i = 3 then Inl ''invalid child'' else Inr (h + i)"
  have a: "DeriveKey (counting ?f) (ExtendedKey 0) [1, 2] 0 = (Inr (ExtendedKey 3), 2)"
    by (simp add: Child_counting)
  have b: "fst (Child (counting ?f) (ExtendedKey 3) 3 2) = Inl ''invalid child''"
    by (simp add: Child_counting)
  note r = derive_key_fail_fast_fold [THEN conjunct2, THEN conjunct2, THEN conjunct2,
      THEN conjunct1, rule_format, OF conjI [OF a b]]
  from r [of "[4, 5]"] a b show ?thesis by simp
qed

text \<open>
  C7, as amended. A path that is not empty (so every path that parsing returns)
  marshals to the JSON string of its canonical form, and unmarshalling that gives the
  path back, with no error. Unmarshalling a JSON string is parsing it with no base
  path: the error of the parser is returned, and a relative string (its first
  component is neither empty nor \<open>m\<close>) fails with \<open>MissingBasePath\<close>.
\<close>

theorem json_round_trip:
  "(p \<noteq> [] \<longrightarrow> MarshalJSON p = Inr (JSON_String (String p))
        \<and> UnmarshalJSON (JSON_String (String p)) q = (p, None))
   \<and> UnmarshalJSON (JSON_String s) q =
        (case ParseDerivationPath s [] of
           Inl err \<Rightarrow> ([], Some (PathError err))
         | Inr r \<Rightarrow> (r, None))
   \<and> (TrimSpace (Split s (CHR ''/'') ! 0) \<noteq> [] \<and> TrimSpace (Split s (CHR ''/'') ! 0) \<noteq> ''m''
        \<longrightarrow> UnmarshalJSON (JSON_String s) q = ([], Some (PathError MissingBasePath)))"
proof (intro conjI impI)
  show un: "UnmarshalJSON (JSON_String s) q =
        (case ParseDerivationPath s [] of
           Inl err \<Rightarrow> ([], Some (PathError err))
         | Inr r \<Rightarrow> (r, None))" for s
    by (simp add: UnmarshalJSON_def json_Unmarshal_def returned_path_def split: sum.splits)
  show "MarshalJSON p = Inr (JSON_String (String p))"
    by (simp add: MarshalJSON_def json_Marshal_def)
  show "UnmarshalJSON (JSON_String (String p)) q = (p, None)" if "p \<noteq> []"
    using that by (simp add: un parse_String)
  show "UnmarshalJSON (JSON_String s) q = ([], Some (PathError MissingBasePath))"
    if "TrimSpace (Split s (CHR ''/'') ! 0) \<noteq> [] \<and> TrimSpace (Split s (CHR ''/'') ! 0) \<noteq> ''m''"
    using that by (simp add: un parse_relative_no_base)
qed

theorem json_round_trip_witness:
  "[0x8000002C, 7 :: 32 word] \<noteq> []
   \<and> MarshalJSON [0x8000002C, 7] = Inr (JSON_String ''m/44'/7'')
   \<and> UnmarshalJSON (JSON_String ''m/44'/7'') [] = ([0x8000002C, 7], None)
   \<and> TrimSpace (Split ''44'/7'' (CHR ''/'') ! 0) = ''44'' @ [CHR 0x27]
   \<and> UnmarshalJSON (JSON_String ''44'/7'') [] = ([], Some (PathError MissingBasePath))"
proof -
  have s: "String [0x8000002C, 7] = ''m/44'/7''"
    by (simp add: String_def Let_def fmt_d_small fmt_d_large digit_chars)
  have t: "TrimSpace (Split ''44'/7'' (CHR ''/'') ! 0) = ''44'' @ [CHR 0x27]"
    by (simp add: string_eval)
  have ne: "[0x8000002C, 7 :: 32 word] \<noteq> []" by simp
  have rel: "TrimSpace (Split ''44'/7'' (CHR ''/'') ! 0) \<noteq> []
      \<and> TrimSpace (Split ''44'/7'' (CHR ''/'') ! 0) \<noteq> ''m''"
    by (simp add: string_eval)
  note jr = json_round_trip [of "[0x8000002C, 7]" "[]" "''44'/7''"]
  note a = jr [THEN conjunct1, rule_format, OF ne]
  note b = jr [THEN conjunct2, THEN conjunct2, rule_format, OF rel]
  from a b s t ne show ?thesis by simp
qed

text \<open>
  The empty path marshals to the JSON string \<open>m\<close>, and unmarshalling that returns the
  error \<open>EmptyPath\<close>.
\<close>

theorem json_empty_path_counterexample:
  "MarshalJSON [] = Inr (JSON_String ''m'')
   \<and> UnmarshalJSON (JSON_String ''m'') [] = ([], Some (PathError EmptyPath))"
  by (simp add: MarshalJSON_def json_Marshal_def String_def UnmarshalJSON_def json_Unmarshal_def
      parse_eval string_eval)

text \<open>
  C8, as amended. A component is read as an integer of any size by the literal
  grammar of \<open>SetString\<close> with base 0: an optional sign, a prefix \<open>0x\<close>/\<open>0X\<close>
  (hexadecimal), \<open>0b\<close>/\<open>0B\<close> (binary), \<open>0o\<close>/\<open>0O\<close> or a plain \<open>0\<close> (octal),
  otherwise decimal, with single underscores between the digits. Every literal of the
  C convention is read with its C value. Text outside the grammar fails with
  \<open>InvalidComponent\<close>. Parsing \<open>m/0x2C'\<close> and parsing \<open>m/44'\<close> both give the
  single index 0x8000002C.
\<close>

theorem multi_base_parsing:
  "SetString s = literal_value s
   \<and> (c_style_literal s = Some v \<longrightarrow> SetString s = Some v)
   \<and> (strip_hardened c = (offset, t) \<and> literal_value t = None
        \<longrightarrow> component_index c = Inl (InvalidComponent t))
   \<and> ParseDerivationPath (''m/0x2C'' @ [CHR 0x27]) base = Inr [0x8000002C]
   \<and> ParseDerivationPath (''m/44'' @ [CHR 0x27]) base = Inr [0x8000002C]"
proof (intro conjI impI)
  show "SetString s = literal_value s" by (rule SetString_literal)
  show "SetString s = Some v" if "c_style_literal s = Some v"
    using that by (simp add: SetString_literal c_style_literal_value)
  show "component_index c = Inl (InvalidComponent t)"
    if "strip_hardened c = (offset, t) \<and> literal_value t = None"
    using that by (simp add: component_index_invalid SetString_literal)
  show "ParseDerivationPath (''m/0x2C'' @ [CHR 0x27]) base = Inr [0x8000002C]"
    by (simp add: parse_eval string_eval number_eval)
  show "ParseDerivationPath (''m/44'' @ [CHR 0x27]) base = Inr [0x8000002C]"
    by (simp add: parse_eval string_eval number_eval)
qed

theorem multi_base_parsing_witness:
  "c_style_literal ''0x2C'' = Some 44 \<and> SetString ''0x2C'' = Some 44
   \<and> literal_value ''0o1_7'' = Some 15 \<and> SetString ''0o1_7'' = Some 15
   \<and> literal_value ''0x1_0000_0000_0000_0000'' = Some (2 ^ 64)
   \<and> strip_hardened (''0b2'' @ [CHR 0x27]) = (0x80000000, ''0b2'')
   \<and> literal_value ''0b2'' = None
   \<and> component_index (''0b2'' @ [CHR 0x27]) = Inl (InvalidComponent ''0b2'')"
proof -
  have a: "c_style_literal ''0x2C'' = Some 44" by (simp add: literal_eval)
  have b: "literal_value ''0o1_7'' = Some 15" by (simp add: literal_eval)
  have c: "literal_value ''0x1_0000_0000_0000_0000'' = Some (2 ^ 64)" by (simp add: literal_eval)
  have d: "strip_hardened (''0b2'' @ [CHR 0x27]) = (0x80000000, ''0b2'')
           \<and> literal_value ''0b2'' = None"
    by (simp add: strip_hardened_def string_eval literal_eval)
  note m1 = multi_base_parsing [THEN conjunct2, THEN conjunct1, rule_format, OF a]
  note m2 = multi_base_parsing [THEN conjunct1, of "''0o1_7''"]
  note m3 = multi_base_parsing [THEN conjunct2, THEN conjunct2, THEN conjunct1, rule_format, OF d]
  from a b c d m1 m2 m3 show ?thesis by simp
qed

text \<open>
  The text \<open>0b11\<close> is no literal of the C convention (after the leading \<open>0\<close>,
  \<open>b\<close> is no octal digit), yet it is read as 3 and \<open>m/0b11\<close> parses.
\<close>

theorem binary_prefix_counterexample:
  "c_style_literal ''0b11'' = None
   \<and> SetString ''0b11'' = Some 3
   \<and> ParseDerivationPath ''m/0b11'' [] = Inr [3]"
  by (simp add: literal_eval parse_eval string_eval number_eval)

end
